theory Spec2Isabelle
  imports Main "HOL-Library.Word"
begin

section \<open>The broadcast interceptors of gorums-ata\<close>

text \<open>
  The development embeds \<^verbatim>\<open>NewBroadcastInterceptor\<close> and
  \<^verbatim>\<open>NewSelectiveBroadcastInterceptor\<close> of package \<^verbatim>\<open>interceptors\<close>.
  One invocation of an interceptor is a function from the closure's state (the map
  \<^verbatim>\<open>broadcastedHashes\<close>) and the arguments \<^verbatim>\<open>(ctx, msg, next)\<close> to the new state, the
  returned pair \<^verbatim>\<open>(resp, err)\<close> and the list of calls the invocation makes to its
  collaborators, in program order.

  The collaborators are outside the package and are parameters of the model:
  \<^verbatim>\<open>proto.Marshal\<close>, \<^verbatim>\<open>sha256.Sum256\<close>, \<^verbatim>\<open>gorums.RPCCall\<close>, the handler \<^verbatim>\<open>next\<close> and the
  predicate \<^verbatim>\<open>shouldBroadcast\<close>. The mutex makes lines 140 to 157 one atomic step, so a
  run of concurrent invocations is the sequence of their critical sections.
\<close>

subsection \<open>Messages, replies and recorded calls\<close>

type_synonym byte = "8 word"

text \<open>\<^verbatim>\<open>*gorums.Message\<close>: the method name, the request metadata and the protobuf payload.\<close>

record 'p message =
  msg_method :: string
  msg_metadata :: "(string \<times> string) list"
  proto_message :: 'p

text \<open>The pair \<^verbatim>\<open>(*gorums.Message, error)\<close> of a handler; \<^verbatim>\<open>None\<close> is \<^verbatim>\<open>nil\<close>.\<close>

type_synonym 'p reply = "'p message option \<times> string option"

text \<open>The ways a call to a peer fails.\<close>

datatype rpc_failure = Timeout | Connection_error | Remote_rejection

text \<open>What one per-node goroutine of the fan-out does.\<close>

datatype ('n, 'p) node_event =
    Rpc_call 'n 'p string
  | Log_failed_to_broadcast 'n rpc_failure
  | Log_broadcasted 'n

text \<open>
  What an invocation does, in order. \<^verbatim>\<open>Go_broadcast\<close> is the statement
  \<^verbatim>\<open>go func() { ... }()\<close>; it carries one list of events for each goroutine the spawned
  function starts (one per node of \<^verbatim>\<open>cfg.Nodes()\<close>, running concurrently).
\<close>

datatype ('c, 'p, 'n) event =
    Next_call 'c "'p message"
  | Marshal_call 'p
  | Predicate_call 'p
  | Log_failed_to_marshal string
  | Log_broadcasting string nat
  | Go_broadcast "('n, 'p) node_event list list"

text \<open>The collaborators taken from other packages.\<close>

record ('n, 'p) env =
  marshal :: "'p \<Rightarrow> string + byte list"
  sum256 :: "byte list \<Rightarrow> byte list"
  rpc_call :: "'n \<Rightarrow> 'p \<Rightarrow> string \<Rightarrow> rpc_failure + 'p"

text \<open>The result of one invocation of the broadcast interceptor.\<close>

record ('c, 'p, 'n) outcome =
  reply :: "'p reply"
  hashes :: "string set"
  trace :: "('c, 'p, 'n) event list"

subsection \<open>The fingerprint (lines 136 and 137)\<close>

text \<open>\<^verbatim>\<open>fmt.Sprintf("%x", hash[:8])\<close>: two lower-case hexadecimal digits for each byte.\<close>

definition hex_digit :: "nat \<Rightarrow> char" where
  "hex_digit d = ''0123456789abcdef'' ! d"

definition hex_byte :: "byte \<Rightarrow> string" where
  "hex_byte b = [hex_digit (unat b div 16), hex_digit (unat b mod 16)]"

definition sprintf_x :: "byte list \<Rightarrow> string" where
  "sprintf_x bs = concat (map hex_byte bs)"

definition hashStr :: "('n, 'p) env \<Rightarrow> byte list \<Rightarrow> string" where
  "hashStr E msgBytes = sprintf_x (take 8 (sum256 E msgBytes))"

subsection \<open>The deduplication cache (lines 140 to 157)\<close>

text \<open>
  \<^verbatim>\<open>broadcastedHashes\<close> is a \<^verbatim>\<open>map[string]struct{}\<close>, that is a set of strings, and
  \<^verbatim>\<open>len\<close> is its cardinality. \<^verbatim>\<open>for h := range broadcastedHashes\<close> visits the keys in an
  order the language leaves open; the order of one such loop is the argument
  \<open>range_order\<close>, and \<open>map_range\<close> says that it lists every key of the map once.
\<close>

definition map_range :: "string set \<Rightarrow> string list \<Rightarrow> bool" where
  "map_range m range_order = (distinct range_order \<and> set range_order = m)"

text \<open>The loop of lines 147 to 154, started with \<^verbatim>\<open>count := 0\<close>.\<close>

fun evict_loop :: "string list \<Rightarrow> nat \<Rightarrow> string set \<Rightarrow> string set" where
  "evict_loop [] count m = m"
| "evict_loop (h # hs) count m =
     (let m' = m - {h}; count' = count + 1
      in if count' \<ge> 5000 then m' else evict_loop hs count' m')"

text \<open>Lines 141 to 156: the first component is \<^verbatim>\<open>alreadyBroadcasted\<close>.\<close>

definition check_and_mark :: "string list \<Rightarrow> string \<Rightarrow> string set \<Rightarrow> bool \<times> string set" where
  "check_and_mark range_order h broadcastedHashes =
     (let alreadyBroadcasted = (h \<in> broadcastedHashes) in
      if \<not> alreadyBroadcasted then
        (let m = insert h broadcastedHashes in
         if card m > 10000 then (alreadyBroadcasted, evict_loop range_order 0 m)
         else (alreadyBroadcasted, m))
      else (alreadyBroadcasted, broadcastedHashes))"

subsection \<open>The fan-out goroutines\<close>

text \<open>
  Lines 176 to 189. Each node gets a goroutine of its own, which calls
  \<^verbatim>\<open>gorums.RPCCall(nodeCtx, msgCopy, method)\<close> and assigns both results to the blank
  identifier. A call given up at the deadline of \<^verbatim>\<open>broadcastCtx\<close> is the failure
  \<open>Timeout\<close>.
\<close>

definition broadcast_node :: "('n, 'p) env \<Rightarrow> 'p \<Rightarrow> string \<Rightarrow> 'n \<Rightarrow> ('n, 'p) node_event list" where
  "broadcast_node E msgCopy method n =
     (case rpc_call E n msgCopy method of
        Inl _ \<Rightarrow> [Rpc_call n msgCopy method]
      | Inr _ \<Rightarrow> [Rpc_call n msgCopy method])"

definition broadcast_goroutine ::
  "('n, 'p) env \<Rightarrow> 'n list \<Rightarrow> 'p \<Rightarrow> string \<Rightarrow> ('n, 'p) node_event list list" where
  "broadcast_goroutine E cfg msgCopy method = map (broadcast_node E msgCopy method) cfg"

text \<open>Lines 237 to 251: the selective variant logs the outcome of each call.\<close>

definition selective_node :: "('n, 'p) env \<Rightarrow> 'p \<Rightarrow> string \<Rightarrow> 'n \<Rightarrow> ('n, 'p) node_event list" where
  "selective_node E msgCopy method n =
     (case rpc_call E n msgCopy method of
        Inl callErr \<Rightarrow> [Rpc_call n msgCopy method, Log_failed_to_broadcast n callErr]
      | Inr _ \<Rightarrow> [Rpc_call n msgCopy method, Log_broadcasted n])"

definition selective_goroutine ::
  "('n, 'p) env \<Rightarrow> 'n list \<Rightarrow> 'p \<Rightarrow> string \<Rightarrow> ('n, 'p) node_event list list" where
  "selective_goroutine E cfg msgCopy method = map (selective_node E msgCopy method) cfg"

subsection \<open>The interceptors\<close>

text \<open>
  \<^verbatim>\<open>NewBroadcastInterceptor(cfg, method)\<close>, lines 123 to 194. \<open>cfg\<close> is the list
  \<^verbatim>\<open>cfg.Nodes()\<close>, and \<open>broadcastedHashes\<close> the map of the closure when the invocation
  enters its critical section. The goroutine clones the payload when it runs; the
  model takes the clone to be the payload the interceptor was given.
\<close>

definition NewBroadcastInterceptor ::
  "('n, 'p) env \<Rightarrow> 'n list \<Rightarrow> string \<Rightarrow> string list \<Rightarrow>
   'c \<Rightarrow> 'p message \<Rightarrow> ('c \<Rightarrow> 'p message \<Rightarrow> 'p reply) \<Rightarrow> string set \<Rightarrow> ('c, 'p, 'n) outcome" where
  "NewBroadcastInterceptor E cfg method range_order ctx msg next broadcastedHashes =
     (if msg_method msg \<noteq> method then
        \<lparr>reply = next ctx msg, hashes = broadcastedHashes, trace = [Next_call ctx msg]\<rparr>
      else
        (case marshal E (proto_message msg) of
           Inl err \<Rightarrow>
             \<lparr>reply = next ctx msg, hashes = broadcastedHashes,
              trace = [Marshal_call (proto_message msg), Log_failed_to_marshal err,
                       Next_call ctx msg]\<rparr>
         | Inr msgBytes \<Rightarrow>
             (let (alreadyBroadcasted, m) =
                    check_and_mark range_order (hashStr E msgBytes) broadcastedHashes
              in if alreadyBroadcasted then
                   \<lparr>reply = next ctx msg, hashes = m,
                    trace = [Marshal_call (proto_message msg), Next_call ctx msg]\<rparr>
                 else
                   \<lparr>reply = next ctx msg, hashes = m,
                    trace = [Marshal_call (proto_message msg), Next_call ctx msg,
                             Go_broadcast
                               (broadcast_goroutine E cfg (proto_message msg) method)]\<rparr>)))"

text \<open>
  \<^verbatim>\<open>NewSelectiveBroadcastInterceptor(cfg, method, shouldBroadcast)\<close>, lines 219 to 255.
  It keeps no state. The operator \<^verbatim>\<open>||\<close> evaluates its right operand only when the left
  one is false, so \<^verbatim>\<open>shouldBroadcast\<close> is called only for a message of the method.
\<close>

definition NewSelectiveBroadcastInterceptor ::
  "('n, 'p) env \<Rightarrow> 'n list \<Rightarrow> string \<Rightarrow> ('p \<Rightarrow> bool) \<Rightarrow>
   'c \<Rightarrow> 'p message \<Rightarrow> ('c \<Rightarrow> 'p message \<Rightarrow> 'p reply) \<Rightarrow> 'p reply \<times> ('c, 'p, 'n) event list" where
  "NewSelectiveBroadcastInterceptor E cfg method shouldBroadcast ctx msg next =
     (if msg_method msg \<noteq> method then (next ctx msg, [Next_call ctx msg])
      else if \<not> shouldBroadcast (proto_message msg) then
        (next ctx msg, [Predicate_call (proto_message msg), Next_call ctx msg])
      else
        (next ctx msg,
         [Predicate_call (proto_message msg), Log_broadcasting method (length cfg),
          Next_call ctx msg,
          Go_broadcast (selective_goroutine E cfg (proto_message msg) method)]))"

subsection \<open>Runs of one interceptor instance\<close>

text \<open>One delivery to the interceptor: its arguments and the order of its eviction loop.\<close>

record ('c, 'p) call =
  call_ctx :: 'c
  call_msg :: "'p message"
  call_next :: "'c \<Rightarrow> 'p message \<Rightarrow> 'p reply"
  call_range :: "string list"

definition invoke ::
  "('n, 'p) env \<Rightarrow> 'n list \<Rightarrow> string \<Rightarrow> string set \<Rightarrow> ('c, 'p) call \<Rightarrow> ('c, 'p, 'n) outcome" where
  "invoke E cfg method m c =
     NewBroadcastInterceptor E cfg method (call_range c) (call_ctx c) (call_msg c) (call_next c) m"

text \<open>The outcomes of a sequence of deliveries to an instance whose cache is \<open>m\<close>.\<close>

fun deliver ::
  "('n, 'p) env \<Rightarrow> 'n list \<Rightarrow> string \<Rightarrow> string set \<Rightarrow> ('c, 'p) call list \<Rightarrow>
   ('c, 'p, 'n) outcome list" where
  "deliver E cfg method m [] = []"
| "deliver E cfg method m (c # cs) =
     (let out = invoke E cfg method m c in out # deliver E cfg method (hashes out) cs)"

text \<open>The cache of the instance after these deliveries.\<close>

fun cache_after ::
  "('n, 'p) env \<Rightarrow> 'n list \<Rightarrow> string \<Rightarrow> string set \<Rightarrow> ('c, 'p) call list \<Rightarrow> string set" where
  "cache_after E cfg method m [] = m"
| "cache_after E cfg method m (c # cs) =
     cache_after E cfg method (hashes (invoke E cfg method m c)) cs"

text \<open>The fan-outs an invocation spawns, and the calls it makes to \<^verbatim>\<open>next\<close>.\<close>

fun fan_outs :: "('c, 'p, 'n) event list \<Rightarrow> ('n, 'p) node_event list list list" where
  "fan_outs [] = []"
| "fan_outs (Go_broadcast g # es) = g # fan_outs es"
| "fan_outs (_ # es) = fan_outs es"

fun next_calls :: "('c, 'p, 'n) event list \<Rightarrow> ('c \<times> 'p message) list" where
  "next_calls [] = []"
| "next_calls (Next_call ctx msg # es) = (ctx, msg) # next_calls es"
| "next_calls (_ # es) = next_calls es"

definition spawns :: "('c, 'p, 'n) event list \<Rightarrow> bool" where
  "spawns es = (fan_outs es \<noteq> [])"

text \<open>
  The fingerprint a delivery looks up in the cache: none when the method differs or
  the payload does not serialise.
\<close>

definition fingerprint :: "('n, 'p) env \<Rightarrow> string \<Rightarrow> ('c, 'p) call \<Rightarrow> string option" where
  "fingerprint E method c =
     (if msg_method (call_msg c) \<noteq> method then None
      else case marshal E (proto_message (call_msg c)) of
             Inl _ \<Rightarrow> None
           | Inr msgBytes \<Rightarrow> Some (hashStr E msgBytes))"

fun fingerprints :: "('n, 'p) env \<Rightarrow> string \<Rightarrow> ('c, 'p) call list \<Rightarrow> string list" where
  "fingerprints E method [] = []"
| "fingerprints E method (c # cs) =
     (case fingerprint E method c of
        None \<Rightarrow> fingerprints E method cs
      | Some h \<Rightarrow> h # fingerprints E method cs)"

text \<open>
  The eviction loop of a delivery runs when its fingerprint is new and the insertion
  makes the map larger than 10000; its order then has to be a range over the map.
\<close>

definition range_ok :: "('n, 'p) env \<Rightarrow> string \<Rightarrow> string set \<Rightarrow> ('c, 'p) call \<Rightarrow> bool" where
  "range_ok E method m c =
     (case fingerprint E method c of
        None \<Rightarrow> True
      | Some h \<Rightarrow>
          (if h \<notin> m \<and> card (insert h m) > 10000 then map_range (insert h m) (call_range c)
           else True))"

fun ranges_ok ::
  "('n, 'p) env \<Rightarrow> 'n list \<Rightarrow> string \<Rightarrow> string set \<Rightarrow> ('c, 'p) call list \<Rightarrow> bool" where
  "ranges_ok E cfg method m [] = True"
| "ranges_ok E cfg method m (c # cs) =
     (range_ok E method m c \<and> ranges_ok E cfg method (hashes (invoke E cfg method m c)) cs)"

text \<open>A message of the configured method whose payload serialises to \<open>msgBytes\<close>.\<close>

definition same_payload :: "('n, 'p) env \<Rightarrow> string \<Rightarrow> byte list \<Rightarrow> ('c, 'p) call \<Rightarrow> bool" where
  "same_payload E method msgBytes c =
     (msg_method (call_msg c) = method \<and> marshal E (proto_message (call_msg c)) = Inr msgBytes)"

text \<open>
  For the deliveries of a run that carry the payload \<open>msgBytes\<close>, in order: whether
  each spawned a broadcast.
\<close>

definition broadcasts_of ::
  "('n, 'p) env \<Rightarrow> 'n list \<Rightarrow> string \<Rightarrow> byte list \<Rightarrow> string set \<Rightarrow> ('c, 'p) call list \<Rightarrow> bool list" where
  "broadcasts_of E cfg method msgBytes m cs =
     map (\<lambda>(c, out). spawns (trace out))
       (filter (\<lambda>(c, out). same_payload E method msgBytes c)
          (zip cs (deliver E cfg method m cs)))"

subsection \<open>A concrete deployment\<close>

text \<open>
  The storage example: writes replicated to three peers. Payloads are numbers below
  65536, serialised to eight bytes; larger ones do not serialise. The digest is a
  stand-in whose first eight bytes are those of its input; the second peer is down.
\<close>

definition ex_method :: string where
  "ex_method = ''proto.Storage.WriteRPC''"

definition ex_cfg :: "string list" where
  "ex_cfg = [''127.0.0.1:50001'', ''127.0.0.1:50002'', ''127.0.0.1:50003'']"

definition ex_bytes :: "nat \<Rightarrow> byte list" where
  "ex_bytes n = [0, 0, 0, 0, 0, 0, of_nat (n div 256), of_nat (n mod 256)]"

definition ex_env :: "(string, nat) env" where
  "ex_env =
     \<lparr>marshal = (\<lambda>n. if n < 65536 then Inr (ex_bytes n) else Inl ''proto: cannot marshal''),
      sum256 = (\<lambda>bs. take 32 (bs @ replicate 32 0)),
      rpc_call = (\<lambda>n p method. if n = ''127.0.0.1:50002'' then Inl Connection_error else Inr p)\<rparr>"

definition ex_write :: "nat \<Rightarrow> nat message" where
  "ex_write n = \<lparr>msg_method = ''proto.Storage.WriteRPC'', msg_metadata = [], proto_message = n\<rparr>"

definition ex_read :: "nat \<Rightarrow> nat message" where
  "ex_read n = \<lparr>msg_method = ''proto.Storage.ReadRPC'', msg_metadata = [], proto_message = n\<rparr>"

definition ex_next :: "unit \<Rightarrow> nat message \<Rightarrow> nat reply" where
  "ex_next ctx msg = (Some msg, None)"

definition ex_failing_next :: "unit \<Rightarrow> nat message \<Rightarrow> nat reply" where
  "ex_failing_next ctx msg = (None, Some ''storage: write failed'')"

definition ex_even :: "nat \<Rightarrow> bool" where
  "ex_even p = (p mod 2 = 0)"

definition ex_key :: "nat \<Rightarrow> string" where
  "ex_key n = sprintf_x (ex_bytes n)"

definition ex_call :: "nat \<Rightarrow> string list \<Rightarrow> (unit, nat) call" where
  "ex_call n range_order =
     \<lparr>call_ctx = (), call_msg = ex_write n, call_next = ex_next, call_range = range_order\<rparr>"

text \<open>
  A full cache: the fingerprints of the payloads 0 to 9999, which is what the cache of
  a new instance holds after these 10000 writes were delivered to it.
\<close>

definition ex_full_range :: "string list" where
  "ex_full_range = map ex_key [0..<10000]"

definition ex_full :: "string set" where
  "ex_full = set ex_full_range"

definition ex_priming :: "(unit, nat) call list" where
  "ex_priming = map (\<lambda>n. ex_call n []) [0..<10000]"

text \<open>A range over the full cache with one more key, which visits the new key first.\<close>

definition ex_new_first :: "string list" where
  "ex_new_first = ex_key 10000 # ex_full_range"

text \<open>Another such range, which visits the new key last.\<close>

definition ex_new_last :: "string list" where
  "ex_new_last = ex_full_range @ [ex_key 10000]"

text \<open>
  Runs of a new instance: the 10000 writes and then a further write, once and twice;
  and a short run that repeats one payload.
\<close>

definition ex_overflow :: "(unit, nat) call list" where
  "ex_overflow = ex_priming @ [ex_call 10000 ex_new_first]"

definition ex_twice :: "(unit, nat) call list" where
  "ex_twice = ex_priming @ [ex_call 10000 ex_new_first, ex_call 10000 [] ]"

definition ex_repeat :: "(unit, nat) call list" where
  "ex_repeat = [ex_call 3 [], ex_call 4 [], ex_call 3 [], ex_call 3 [] ]"

section \<open>Properties\<close>

subsection \<open>The filter and the local invocation\<close>

lemma ex_hashStr: "hashStr ex_env (ex_bytes n) = ex_key n"
  by (simp add: hashStr_def ex_env_def ex_key_def ex_bytes_def)

text \<open>
  C4: a message whose method differs from the configured one is handed to \<open>next\<close> and
  nothing else happens: the result is that of \<open>next\<close>, the cache is the one before, the
  only recorded call is the one to \<open>next\<close> (no serialisation, no broadcast), whatever
  the serialiser, the digest and the cache are.
\<close>

theorem filter_miss_is_next:
  "msg_method msg \<noteq> method \<Longrightarrow>
   NewBroadcastInterceptor E cfg method range_order ctx msg next m =
     \<lparr>reply = next ctx msg, hashes = m, trace = [Next_call ctx msg]\<rparr>"
  by (simp add: NewBroadcastInterceptor_def)

theorem filter_miss_is_next_witness:
  "msg_method (ex_read 7) \<noteq> ex_method \<and>
   NewBroadcastInterceptor ex_env ex_cfg ex_method [] () (ex_read 7) ex_next {ex_key 7} =
     \<lparr>reply = (Some (ex_read 7), None), hashes = {ex_key 7},
      trace = [Next_call () (ex_read 7)]\<rparr>"
proof -
  have h: "msg_method (ex_read 7) \<noteq> ex_method"
    by (simp add: ex_read_def ex_method_def)
  show ?thesis
    using h filter_miss_is_next [OF h, of ex_env ex_cfg "[]" "()" ex_next "{ex_key 7}"]
    by (simp add: ex_next_def)
qed

text \<open>
  C2: for a message of the configured method the interceptor calls \<open>next\<close> exactly
  once, with the context and message it was given, and returns what \<open>next\<close> returned,
  whatever the cache holds; the cache decides only whether a broadcast is spawned (it
  is, exactly when the payload serialises and its fingerprint is not in the cache).
\<close>

theorem local_invocation_exactly_once:
  "msg_method msg = method \<Longrightarrow>
   next_calls (trace (NewBroadcastInterceptor E cfg method range_order ctx msg next m))
     = [(ctx, msg)] \<and>
   reply (NewBroadcastInterceptor E cfg method range_order ctx msg next m) = next ctx msg \<and>
   (spawns (trace (NewBroadcastInterceptor E cfg method range_order ctx msg next m)) \<longleftrightarrow>
      (\<exists>msgBytes. marshal E (proto_message msg) = Inr msgBytes \<and> hashStr E msgBytes \<notin> m))"
  by (cases "marshal E (proto_message msg)")
     (simp_all add: NewBroadcastInterceptor_def check_and_mark_def Let_def spawns_def)

theorem local_invocation_exactly_once_witness:
  "msg_method (ex_write 7) = ex_method \<and>
   next_calls (trace (NewBroadcastInterceptor ex_env ex_cfg ex_method [] () (ex_write 7)
     ex_next {ex_key 7})) = [((), ex_write 7)] \<and>
   reply (NewBroadcastInterceptor ex_env ex_cfg ex_method [] () (ex_write 7)
     ex_next {ex_key 7}) = (Some (ex_write 7), None) \<and>
   \<not> spawns (trace (NewBroadcastInterceptor ex_env ex_cfg ex_method [] () (ex_write 7)
     ex_next {ex_key 7}))"
proof -
  have h: "msg_method (ex_write 7) = ex_method"
    by (simp add: ex_write_def ex_method_def)
  have m: "marshal ex_env (proto_message (ex_write 7)) = Inr (ex_bytes 7)"
    by (simp add: ex_env_def ex_write_def)
  show ?thesis
    using h m local_invocation_exactly_once [OF h, of ex_env ex_cfg "[]" "()" ex_next "{ex_key 7}"]
    by (simp add: ex_next_def ex_hashStr)
qed

text \<open>
  C6: when the payload of a message of the configured method does not serialise, the
  interceptor logs the failure, calls \<open>next\<close> and returns its result; the cache is
  left as it was and no broadcast is spawned.
\<close>

theorem marshal_failure_passes_through:
  "msg_method msg = method \<Longrightarrow> marshal E (proto_message msg) = Inl err \<Longrightarrow>
   NewBroadcastInterceptor E cfg method range_order ctx msg next m =
     \<lparr>reply = next ctx msg, hashes = m,
      trace = [Marshal_call (proto_message msg), Log_failed_to_marshal err,
               Next_call ctx msg]\<rparr>"
  by (simp add: NewBroadcastInterceptor_def)

theorem marshal_failure_passes_through_witness:
  "msg_method (ex_write 70000) = ex_method \<and>
   marshal ex_env (proto_message (ex_write 70000)) = Inl ''proto: cannot marshal'' \<and>
   NewBroadcastInterceptor ex_env ex_cfg ex_method [] () (ex_write 70000) ex_next {} =
     \<lparr>reply = (Some (ex_write 70000), None), hashes = {},
      trace = [Marshal_call 70000, Log_failed_to_marshal ''proto: cannot marshal'',
               Next_call () (ex_write 70000)]\<rparr> \<and>
   \<not> spawns (trace (NewBroadcastInterceptor ex_env ex_cfg ex_method [] () (ex_write 70000)
     ex_next {}))"
proof -
  have h: "msg_method (ex_write 70000) = ex_method"
    by (simp add: ex_write_def ex_method_def)
  have m: "marshal ex_env (proto_message (ex_write 70000)) = Inl ''proto: cannot marshal''"
    by (simp add: ex_env_def ex_write_def)
  have p: "proto_message (ex_write 70000) = 70000"
    by (simp add: ex_write_def)
  show ?thesis
    using h m marshal_failure_passes_through [OF h m, of ex_cfg "[]" "()" ex_next "{}"]
    by (simp add: ex_next_def p spawns_def)
qed

subsection \<open>The selective variant\<close>

text \<open>
  C10: in the selective variant a message whose method differs from the configured one
  goes to \<open>next\<close> unchanged; the predicate is not called (no call of it is recorded and
  the outcome is the same for every predicate).
\<close>

theorem selective_method_miss_skips_predicate:
  "msg_method msg \<noteq> method \<Longrightarrow>
   NewSelectiveBroadcastInterceptor E cfg method shouldBroadcast ctx msg next =
     (next ctx msg, [Next_call ctx msg])"
  by (simp add: NewSelectiveBroadcastInterceptor_def)

theorem selective_method_miss_skips_predicate_witness:
  "msg_method (ex_read 8) \<noteq> ex_method \<and>
   NewSelectiveBroadcastInterceptor ex_env ex_cfg ex_method ex_even () (ex_read 8) ex_next =
     ((Some (ex_read 8), None), [Next_call () (ex_read 8)])"
proof -
  have h: "msg_method (ex_read 8) \<noteq> ex_method"
    by (simp add: ex_read_def ex_method_def)
  show ?thesis
    using h selective_method_miss_skips_predicate [OF h, of ex_env ex_cfg ex_even "()" ex_next]
    by (simp add: ex_next_def)
qed

text \<open>
  C5, as stated, fails: the predicate holds of the payload of this read request, and no
  broadcast is spawned, because the method is not the configured one.
\<close>

theorem selective_predicate_alone_counterexample:
  "ex_even (proto_message (ex_read 8)) \<and>
   \<not> spawns (snd (NewSelectiveBroadcastInterceptor ex_env ex_cfg ex_method ex_even ()
                   (ex_read 8) ex_next))"
  by (simp add: NewSelectiveBroadcastInterceptor_def ex_even_def ex_read_def ex_method_def
        spawns_def)

text \<open>
  C5, amended: the selective variant spawns the broadcast exactly when the method is
  the configured one and the predicate holds of the payload.
\<close>

theorem selective_spawns_iff_method_and_predicate:
  "spawns (snd (NewSelectiveBroadcastInterceptor E cfg method shouldBroadcast ctx msg next))
     \<longleftrightarrow> (msg_method msg = method \<and> shouldBroadcast (proto_message msg))"
  by (simp add: NewSelectiveBroadcastInterceptor_def spawns_def)

subsection \<open>The fan-out\<close>

lemma broadcast_node_eq: "broadcast_node E msgCopy method n = [Rpc_call n msgCopy method]"
  by (cases "rpc_call E n msgCopy method") (simp_all add: broadcast_node_def)

text \<open>
  C7: the fan-out makes one call for each node of the configuration, whatever the
  calls return (\<open>r\<close> is any assignment of results to the calls): a failure changes
  neither the calls to the other nodes nor the number of calls to its own node, and
  the interceptor's result is that of \<open>next\<close>. A spawned broadcast is this fan-out.
\<close>

theorem fan_out_one_call_per_node:
  "broadcast_goroutine (E\<lparr>rpc_call := r\<rparr>) cfg msgCopy method =
     map (\<lambda>n. [Rpc_call n msgCopy method]) cfg \<and>
   reply (NewBroadcastInterceptor (E\<lparr>rpc_call := r\<rparr>) cfg method range_order ctx msg next m)
     = next ctx msg \<and>
   (spawns (trace (NewBroadcastInterceptor (E\<lparr>rpc_call := r\<rparr>) cfg method range_order ctx
              msg next m)) \<longrightarrow>
    fan_outs (trace (NewBroadcastInterceptor (E\<lparr>rpc_call := r\<rparr>) cfg method range_order ctx
              msg next m)) =
      [map (\<lambda>n. [Rpc_call n (proto_message msg) method]) cfg])"
proof -
  have g: "broadcast_goroutine (E\<lparr>rpc_call := r\<rparr>) cfg p method =
             map (\<lambda>n. [Rpc_call n p method]) cfg" for p
    by (simp add: broadcast_goroutine_def broadcast_node_eq)
  show ?thesis
    by (cases "marshal E (proto_message msg)")
       (simp_all add: g NewBroadcastInterceptor_def check_and_mark_def Let_def spawns_def)
qed

theorem fan_out_one_call_per_node_witness:
  "rpc_call ex_env ''127.0.0.1:50002'' 7 ex_method = Inl Connection_error \<and>
   spawns (trace (NewBroadcastInterceptor ex_env ex_cfg ex_method [] () (ex_write 7)
     ex_next {})) \<and>
   fan_outs (trace (NewBroadcastInterceptor ex_env ex_cfg ex_method [] () (ex_write 7)
     ex_next {})) =
     [ [ [Rpc_call ''127.0.0.1:50001'' 7 ex_method], [Rpc_call ''127.0.0.1:50002'' 7 ex_method],
         [Rpc_call ''127.0.0.1:50003'' 7 ex_method] ] ] \<and>
   reply (NewBroadcastInterceptor ex_env ex_cfg ex_method [] () (ex_write 7) ex_next {})
     = (Some (ex_write 7), None)"
proof -
  have e: "ex_env\<lparr>rpc_call := rpc_call ex_env\<rparr> = ex_env"
    by simp
  have f: "rpc_call ex_env ''127.0.0.1:50002'' 7 ex_method = Inl Connection_error"
    by (simp add: ex_env_def)
  have s: "spawns (trace (NewBroadcastInterceptor ex_env ex_cfg ex_method [] () (ex_write 7)
     ex_next {}))"
    by (simp add: NewBroadcastInterceptor_def check_and_mark_def ex_env_def ex_write_def
          ex_method_def spawns_def)
  have p: "proto_message (ex_write 7) = 7"
    by (simp add: ex_write_def)
  show ?thesis
    using f s
      fan_out_one_call_per_node [of "rpc_call ex_env" ex_env ex_cfg _ ex_method "[]" "()"
        "ex_write 7" ex_next "{}"]
    by (simp add: e p ex_cfg_def ex_next_def)
qed

subsection \<open>The cache\<close>

lemma evict_loop_take:
  "count < 5000 \<Longrightarrow> evict_loop range_order count m = m - set (take (5000 - count) range_order)"
proof (induction range_order arbitrary: count m)
  case Nil
  then show ?case by simp
next
  case (Cons h hs)
  from Cons.prems obtain k where k: "5000 - count = Suc k"
    by (metis Suc_diff_Suc)
  show ?case
  proof (cases "count + 1 \<ge> 5000")
    case True
    with k have "k = 0" by simp
    with True k show ?thesis by simp
  next
    case False
    then have "count + 1 < 5000" by simp
    from k have k': "5000 - (count + 1) = k" by arith
    have "evict_loop hs (count + 1) (m - {h}) = m - {h} - set (take k hs)"
      using Cons.IH [OF \<open>count + 1 < 5000\<close>, of "m - {h}"] unfolding k' .
    with False k show ?thesis by (auto simp: Let_def)
  qed
qed

lemma evict_loop_0: "evict_loop range_order 0 m = m - set (take 5000 range_order)"
  using evict_loop_take [of 0 range_order m] by simp

lemma check_and_mark_seen: "h \<in> m \<Longrightarrow> check_and_mark range_order h m = (True, m)"
  by (simp add: check_and_mark_def)

lemma check_and_mark_new:
  "h \<notin> m \<Longrightarrow> \<not> card (insert h m) > 10000 \<Longrightarrow> check_and_mark range_order h m = (False, insert h m)"
  by (simp add: check_and_mark_def)

lemma check_and_mark_evict:
  "h \<notin> m \<Longrightarrow> card (insert h m) > 10000 \<Longrightarrow>
   check_and_mark range_order h m = (False, insert h m - set (take 5000 range_order))"
  by (simp add: check_and_mark_def evict_loop_0)

lemma card_after_eviction:
  assumes "map_range M range_order" and "5000 \<le> card M"
  shows "card (M - set (take 5000 range_order)) = card M - 5000"
proof -
  from assms(1) have d: "distinct range_order" and s: "set range_order = M"
    by (simp_all add: map_range_def)
  from s have fin: "finite M" by auto
  from d s have len: "length range_order = card M"
    using distinct_card by fastforce
  have sub: "set (take 5000 range_order) \<subseteq> M"
    using s set_take_subset by fast
  have "card (set (take 5000 range_order)) = length (take 5000 range_order)"
    using d distinct_card distinct_take by blast
  also have "\<dots> = 5000" using len assms(2) by simp
  finally have c: "card (set (take 5000 range_order)) = 5000" .
  show ?thesis
    using card_Diff_subset [of "set (take 5000 range_order)" M] sub c by simp
qed

lemma invoke_hashes:
  "hashes (invoke E cfg method m c) =
     (case fingerprint E method c of None \<Rightarrow> m
      | Some h \<Rightarrow> snd (check_and_mark (call_range c) h m))"
  by (cases "marshal E (proto_message (call_msg c))")
     (simp_all add: invoke_def NewBroadcastInterceptor_def fingerprint_def Let_def
        split: prod.splits)

lemma invoke_spawns:
  "spawns (trace (invoke E cfg method m c)) =
     (case fingerprint E method c of None \<Rightarrow> False | Some h \<Rightarrow> h \<notin> m)"
  by (cases "marshal E (proto_message (call_msg c))")
     (simp_all add: invoke_def NewBroadcastInterceptor_def fingerprint_def Let_def
        check_and_mark_def spawns_def split: prod.splits)

lemma invoke_bounded:
  assumes "finite m" and "card m \<le> 10000" and "range_ok E method m c"
  shows "finite (hashes (invoke E cfg method m c)) \<and> card (hashes (invoke E cfg method m c)) \<le> 10000"
proof (cases "fingerprint E method c")
  case None
  with assms show ?thesis by (simp add: invoke_hashes)
next
  case (Some h)
  show ?thesis
  proof (cases "h \<in> m")
    case True
    with Some assms show ?thesis by (simp add: invoke_hashes check_and_mark_seen)
  next
    case False
    show ?thesis
    proof (cases "card (insert h m) > 10000")
      case over: True
      with False Some assms(3) have r: "map_range (insert h m) (call_range c)"
        by (simp add: range_ok_def)
      from over have "5000 \<le> card (insert h m)" by simp
      from card_after_eviction [OF r this] assms(1,2) False
      have "card (insert h m - set (take 5000 (call_range c))) \<le> 10000" by simp
      with False over Some assms(1) show ?thesis
        by (simp add: invoke_hashes check_and_mark_evict)
    next
      case under: False
      with False Some assms(1) show ?thesis
        by (simp add: invoke_hashes check_and_mark_new)
    qed
  qed
qed

lemma deliver_bounded:
  "finite m \<Longrightarrow> card m \<le> 10000 \<Longrightarrow> ranges_ok E cfg method m cs \<Longrightarrow>
   out \<in> set (deliver E cfg method m cs) \<Longrightarrow> finite (hashes out) \<and> card (hashes out) \<le> 10000"
proof (induction cs arbitrary: m)
  case Nil
  then show ?case by simp
next
  case (Cons c cs)
  from Cons.prems(3) have r: "range_ok E method m c"
    and rs: "ranges_ok E cfg method (hashes (invoke E cfg method m c)) cs"
    by simp_all
  have b: "finite (hashes (invoke E cfg method m c)) \<and>
      card (hashes (invoke E cfg method m c)) \<le> 10000"
    using invoke_bounded [OF Cons.prems(1,2) r] .
  from Cons.prems(4) consider "out = invoke E cfg method m c"
    | "out \<in> set (deliver E cfg method (hashes (invoke E cfg method m c)) cs)"
    by (auto simp: Let_def)
  then show ?case
  proof cases
    case 1
    with b show ?thesis by simp
  next
    case 2
    with Cons.IH [of "hashes (invoke E cfg method m c)"] b rs show ?thesis by simp
  qed
qed

subsection \<open>Runs without eviction\<close>

lemma length_deliver: "length (deliver E cfg method m cs) = length cs"
  by (induction cs arbitrary: m) (simp_all add: Let_def)

lemma ranges_ok_append:
  "ranges_ok E cfg method m (xs @ ys) \<longleftrightarrow>
     ranges_ok E cfg method m xs \<and> ranges_ok E cfg method (cache_after E cfg method m xs) ys"
  by (induction xs arbitrary: m) simp_all

lemma broadcasts_of_Nil: "broadcasts_of E cfg method msgBytes m [] = []"
  by (simp add: broadcasts_of_def)

lemma broadcasts_of_Cons:
  "broadcasts_of E cfg method msgBytes m (c # cs) =
     (if same_payload E method msgBytes c then [spawns (trace (invoke E cfg method m c))] else [])
     @ broadcasts_of E cfg method msgBytes (hashes (invoke E cfg method m c)) cs"
  by (simp add: broadcasts_of_def Let_def)

lemma broadcasts_of_append:
  "broadcasts_of E cfg method msgBytes m (xs @ ys) =
     broadcasts_of E cfg method msgBytes m xs
     @ broadcasts_of E cfg method msgBytes (cache_after E cfg method m xs) ys"
  by (induction xs arbitrary: m) (simp_all add: broadcasts_of_Nil broadcasts_of_Cons)

lemma same_payload_fingerprint:
  "same_payload E method msgBytes c \<Longrightarrow> fingerprint E method c = Some (hashStr E msgBytes)"
  by (simp add: same_payload_def fingerprint_def)

lemma invoke_hashes_no_eviction:
  assumes "finite m" and "card (m \<union> set (fingerprints E method (c # cs))) \<le> 10000"
  shows "hashes (invoke E cfg method m c) = m \<union> set (fingerprints E method [c])"
proof (cases "fingerprint E method c")
  case None
  then show ?thesis by (simp add: invoke_hashes)
next
  case (Some h)
  have "insert h m \<subseteq> m \<union> set (fingerprints E method (c # cs))"
    using Some by auto
  moreover have "finite (m \<union> set (fingerprints E method (c # cs)))"
    using assms(1) by simp
  ultimately have "card (insert h m) \<le> card (m \<union> set (fingerprints E method (c # cs)))"
    by (rule card_mono [rotated])
  with assms(2) have le: "\<not> card (insert h m) > 10000" by simp
  show ?thesis
  proof (cases "h \<in> m")
    case True
    with Some show ?thesis by (auto simp: invoke_hashes check_and_mark_seen)
  next
    case False
    with Some le show ?thesis by (simp add: invoke_hashes check_and_mark_new)
  qed
qed

lemma range_ok_no_eviction:
  assumes "finite m" and "card (m \<union> set (fingerprints E method (c # cs))) \<le> 10000"
  shows "range_ok E method m c"
proof (cases "fingerprint E method c")
  case None
  then show ?thesis by (simp add: range_ok_def)
next
  case (Some h)
  have "insert h m \<subseteq> m \<union> set (fingerprints E method (c # cs))"
    using Some by auto
  moreover have "finite (m \<union> set (fingerprints E method (c # cs)))"
    using assms(1) by simp
  ultimately have "card (insert h m) \<le> card (m \<union> set (fingerprints E method (c # cs)))"
    by (rule card_mono [rotated])
  with assms(2) have le: "\<not> card (insert h m) > 10000" by simp
  with Some show ?thesis by (simp add: range_ok_def)
qed

lemma fingerprints_Cons_union:
  "(m \<union> set (fingerprints E method [c])) \<union> set (fingerprints E method cs) =
     m \<union> set (fingerprints E method (c # cs))"
  by (cases "fingerprint E method c") auto

lemma cache_after_no_eviction:
  "finite m \<Longrightarrow> card (m \<union> set (fingerprints E method cs)) \<le> 10000 \<Longrightarrow>
   cache_after E cfg method m cs = m \<union> set (fingerprints E method cs)"
proof (induction cs arbitrary: m)
  case Nil
  then show ?case by simp
next
  case (Cons c cs)
  let ?m' = "hashes (invoke E cfg method m c)"
  have h: "?m' = m \<union> set (fingerprints E method [c])"
    using invoke_hashes_no_eviction [OF Cons.prems] .
  then have f: "finite ?m'" using Cons.prems(1) by simp
  have u: "?m' \<union> set (fingerprints E method cs) = m \<union> set (fingerprints E method (c # cs))"
    unfolding h by (rule fingerprints_Cons_union)
  with Cons.prems(2) have "card (?m' \<union> set (fingerprints E method cs)) \<le> 10000" by simp
  from Cons.IH [OF f this] u show ?case by simp
qed

lemma ranges_ok_no_eviction:
  "finite m \<Longrightarrow> card (m \<union> set (fingerprints E method cs)) \<le> 10000 \<Longrightarrow>
   ranges_ok E cfg method m cs"
proof (induction cs arbitrary: m)
  case Nil
  then show ?case by simp
next
  case (Cons c cs)
  let ?m' = "hashes (invoke E cfg method m c)"
  have h: "?m' = m \<union> set (fingerprints E method [c])"
    using invoke_hashes_no_eviction [OF Cons.prems] .
  then have f: "finite ?m'" using Cons.prems(1) by simp
  have u: "?m' \<union> set (fingerprints E method cs) = m \<union> set (fingerprints E method (c # cs))"
    unfolding h by (rule fingerprints_Cons_union)
  with Cons.prems(2) have "card (?m' \<union> set (fingerprints E method cs)) \<le> 10000" by simp
  from Cons.IH [OF f this] range_ok_no_eviction [OF Cons.prems] show ?case by simp
qed

lemma broadcasts_of_seen:
  "finite m \<Longrightarrow> card (m \<union> set (fingerprints E method cs)) \<le> 10000 \<Longrightarrow>
   hashStr E msgBytes \<in> m \<Longrightarrow>
   broadcasts_of E cfg method msgBytes m cs =
     replicate (length (filter (same_payload E method msgBytes) cs)) False"
proof (induction cs arbitrary: m)
  case Nil
  then show ?case by (simp add: broadcasts_of_Nil)
next
  case (Cons c cs)
  let ?m' = "hashes (invoke E cfg method m c)"
  have h: "?m' = m \<union> set (fingerprints E method [c])"
    using invoke_hashes_no_eviction [OF Cons.prems(1,2)] .
  then have f: "finite ?m'" using Cons.prems(1) by simp
  have u: "?m' \<union> set (fingerprints E method cs) = m \<union> set (fingerprints E method (c # cs))"
    unfolding h by (rule fingerprints_Cons_union)
  with Cons.prems(2) have c: "card (?m' \<union> set (fingerprints E method cs)) \<le> 10000" by simp
  from h Cons.prems(3) have "hashStr E msgBytes \<in> ?m'" by simp
  from Cons.IH [OF f c this] Cons.prems(3) show ?case
    by (simp add: broadcasts_of_Cons invoke_spawns same_payload_fingerprint)
qed

lemma broadcasts_of_unseen:
  "finite m \<Longrightarrow> card (m \<union> set (fingerprints E method cs)) \<le> 10000 \<Longrightarrow>
   hashStr E msgBytes \<notin> m \<Longrightarrow>
   \<forall>c \<in> set cs. fingerprint E method c = Some (hashStr E msgBytes) \<longrightarrow>
     same_payload E method msgBytes c \<Longrightarrow>
   broadcasts_of E cfg method msgBytes m cs =
     (if filter (same_payload E method msgBytes) cs = [] then []
      else True # replicate (length (filter (same_payload E method msgBytes) cs) - 1) False)"
proof (induction cs arbitrary: m)
  case Nil
  then show ?case by (simp add: broadcasts_of_Nil)
next
  case (Cons c cs)
  let ?m' = "hashes (invoke E cfg method m c)"
  have h: "?m' = m \<union> set (fingerprints E method [c])"
    using invoke_hashes_no_eviction [OF Cons.prems(1,2)] .
  then have f: "finite ?m'" using Cons.prems(1) by simp
  have u: "?m' \<union> set (fingerprints E method cs) = m \<union> set (fingerprints E method (c # cs))"
    unfolding h by (rule fingerprints_Cons_union)
  with Cons.prems(2) have c: "card (?m' \<union> set (fingerprints E method cs)) \<le> 10000" by simp
  from Cons.prems(4) have rest: "\<forall>c \<in> set cs. fingerprint E method c = Some (hashStr E msgBytes) \<longrightarrow>
     same_payload E method msgBytes c" by simp
  show ?case
  proof (cases "same_payload E method msgBytes c")
    case True
    then have fp: "fingerprint E method c = Some (hashStr E msgBytes)"
      by (rule same_payload_fingerprint)
    with h have "hashStr E msgBytes \<in> ?m'" by simp
    from broadcasts_of_seen [OF f c this] True fp Cons.prems(3) show ?thesis
      by (simp add: broadcasts_of_Cons invoke_spawns)
  next
    case False
    with Cons.prems(4) have "fingerprint E method c \<noteq> Some (hashStr E msgBytes)" by auto
    with h Cons.prems(3) have "hashStr E msgBytes \<notin> ?m'"
      by (cases "fingerprint E method c") auto
    from Cons.IH [OF f c this rest] False show ?thesis
      by (simp add: broadcasts_of_Cons)
  qed
qed

subsection \<open>The full cache of the concrete deployment\<close>

lemma hex_digit_inj: "a < 16 \<Longrightarrow> b < 16 \<Longrightarrow> hex_digit a = hex_digit b \<Longrightarrow> a = b"
proof -
  have d: "distinct ''0123456789abcdef''" by simp
  have l: "length ''0123456789abcdef'' = 16" by simp
  show "a < 16 \<Longrightarrow> b < 16 \<Longrightarrow> hex_digit a = hex_digit b \<Longrightarrow> a = b"
    unfolding hex_digit_def using d l nth_eq_iff_index_eq by metis
qed

lemma hex_byte_inj: "hex_byte a = hex_byte b \<Longrightarrow> a = b"
proof -
  assume e: "hex_byte a = hex_byte b"
  have la: "unat a < 256" using unsigned_less [of a] by simp
  have lb: "unat b < 256" using unsigned_less [of b] by simp
  from e have "hex_digit (unat a div 16) = hex_digit (unat b div 16)"
    and "hex_digit (unat a mod 16) = hex_digit (unat b mod 16)"
    by (simp_all add: hex_byte_def)
  with la lb have "unat a div 16 = unat b div 16" and "unat a mod 16 = unat b mod 16"
    by (auto intro!: hex_digit_inj)
  then have "unat a = unat b"
    by (metis div_mult_mod_eq)
  then show "a = b" by (simp add: word_unat_eq_iff)
qed

lemma length_hex_byte: "length (hex_byte b) = 2"
  by (simp add: hex_byte_def)

lemma ex_bytes_inj: "i < 65536 \<Longrightarrow> j < 65536 \<Longrightarrow> ex_bytes i = ex_bytes j \<Longrightarrow> i = j"
proof -
  assume i: "i < 65536" and j: "j < 65536" and e: "ex_bytes i = ex_bytes j"
  from e have h: "(of_nat (i div 256) :: byte) = of_nat (j div 256)"
    and l: "(of_nat (i mod 256) :: byte) = of_nat (j mod 256)"
    by (simp_all add: ex_bytes_def)
  from i j have "i div 256 < 256" "j div 256 < 256" by simp_all
  with h have "i div 256 = j div 256"
    by (simp add: of_nat_inverse word_of_nat_eq_iff take_bit_nat_eq_self)
  moreover from l have "i mod 256 = j mod 256"
    by (simp add: word_of_nat_eq_iff take_bit_nat_eq_self)
  ultimately show "i = j" by (metis div_mult_mod_eq)
qed

lemma ex_key_inj: "i < 65536 \<Longrightarrow> j < 65536 \<Longrightarrow> ex_key i = ex_key j \<Longrightarrow> i = j"
proof -
  assume i: "i < 65536" and j: "j < 65536" and e: "ex_key i = ex_key j"
  from e have "hex_byte (of_nat (i div 256)) = hex_byte (of_nat (j div 256))"
    and "hex_byte (of_nat (i mod 256)) = hex_byte (of_nat (j mod 256))"
    by (simp_all add: ex_key_def ex_bytes_def sprintf_x_def length_hex_byte)
  then have "ex_bytes i = ex_bytes j"
    by (simp add: ex_bytes_def hex_byte_inj)
  with i j show "i = j" by (rule ex_bytes_inj)
qed

lemma ex_fingerprint: "n < 65536 \<Longrightarrow> fingerprint ex_env ex_method (ex_call n ro) = Some (ex_key n)"
proof -
  assume "n < 65536"
  then have "marshal ex_env n = Inr (ex_bytes n)"
    by (simp add: ex_env_def)
  then show ?thesis
    by (simp add: fingerprint_def ex_call_def ex_write_def ex_method_def ex_hashStr)
qed

lemma ex_same_payload:
  "n < 65536 \<Longrightarrow> k < 65536 \<Longrightarrow> same_payload ex_env ex_method (ex_bytes k) (ex_call n ro) \<longleftrightarrow> n = k"
  using ex_bytes_inj [of n k]
  by (auto simp: same_payload_def ex_call_def ex_write_def ex_method_def ex_env_def)

lemma ex_key_inj_on: "inj_on ex_key {..<65536}"
  by (rule inj_onI) (simp add: ex_key_inj)

lemma ex_full_range_distinct: "distinct ex_full_range"
proof -
  have "inj_on ex_key (set [0..<10000])"
    by (rule inj_on_subset [OF ex_key_inj_on]) auto
  then show ?thesis
    unfolding ex_full_range_def by (simp only: distinct_map distinct_upt simp_thms)
qed

lemma ex_full_range_length: "length ex_full_range = 10000"
  unfolding ex_full_range_def by (simp only: length_map length_upt diff_zero)

lemma ex_full_finite: "finite ex_full"
  by (simp add: ex_full_def)

lemma ex_full_card: "card ex_full = 10000"
  unfolding ex_full_def using distinct_card [OF ex_full_range_distinct] ex_full_range_length
  by simp

lemma ex_full_mem: "ex_key n \<in> ex_full \<Longrightarrow> n < 65536 \<Longrightarrow> n < 10000"
proof -
  assume "ex_key n \<in> ex_full" and n: "n < 65536"
  then obtain i where i: "i < 10000" and e: "ex_key n = ex_key i"
    unfolding ex_full_def ex_full_range_def by (auto simp del: upt_rec_numeral)
  from i have "i < 65536" by simp
  with n e have "n = i" using ex_key_inj by blast
  with i show ?thesis by simp
qed

lemma ex_new_key: "ex_key 10000 \<notin> ex_full"
  using ex_full_mem [of 10000] by auto

lemma ex_new_first_range: "map_range (insert (ex_key 10000) ex_full) ex_new_first"
  using ex_new_key ex_full_range_distinct
  by (simp add: map_range_def ex_new_first_def ex_full_def)

lemma ex_priming_fingerprints: "fingerprints ex_env ex_method ex_priming = ex_full_range"
proof -
  have "\<forall>n \<in> set ns. n < 65536 \<Longrightarrow>
        fingerprints ex_env ex_method (map (\<lambda>n. ex_call n []) ns) = map ex_key ns" for ns
    by (induction ns) (simp_all add: ex_fingerprint)
  from this [of "[0..<10000]"] show ?thesis
    unfolding ex_priming_def ex_full_range_def by (simp del: upt_rec_numeral)
qed

lemma ex_priming_cache: "cache_after ex_env ex_cfg ex_method {} ex_priming = ex_full"
proof -
  have "card ({} \<union> set (fingerprints ex_env ex_method ex_priming)) \<le> 10000"
    using ex_full_card by (simp add: ex_priming_fingerprints ex_full_def)
  from cache_after_no_eviction [OF finite.emptyI this, of ex_cfg] show ?thesis
    by (simp add: ex_priming_fingerprints ex_full_def)
qed

lemma ex_priming_ranges: "ranges_ok ex_env ex_cfg ex_method {} ex_priming"
proof -
  have "card ({} \<union> set (fingerprints ex_env ex_method ex_priming)) \<le> 10000"
    using ex_full_card by (simp add: ex_priming_fingerprints ex_full_def)
  from ranges_ok_no_eviction [OF finite.emptyI this] show ?thesis .
qed

lemma ex_priming_broadcasts:
  "broadcasts_of ex_env ex_cfg ex_method (ex_bytes 10000) {} ex_priming = []"
proof -
  have "\<forall>n \<in> set ns. n < 10000 \<Longrightarrow>
        broadcasts_of ex_env ex_cfg ex_method (ex_bytes 10000) m (map (\<lambda>n. ex_call n []) ns) = []"
    for ns m
    by (induction ns arbitrary: m) (simp_all add: broadcasts_of_Nil broadcasts_of_Cons ex_same_payload)
  from this [of "[0..<10000]"] show ?thesis
    unfolding ex_priming_def by (simp del: upt_rec_numeral)
qed

lemma ex_overflow_hashes:
  "hashes (invoke ex_env ex_cfg ex_method ex_full (ex_call 10000 ro)) =
     insert (ex_key 10000) ex_full - set (take 5000 ro)"
proof -
  have r: "call_range (ex_call 10000 ro) = ro"
    by (simp add: ex_call_def)
  show ?thesis
    using ex_new_key ex_full_card ex_full_finite
    by (simp add: invoke_hashes ex_fingerprint check_and_mark_evict r)
qed

lemma ex_key_evicted:
  "ex_key 10000 \<notin> hashes (invoke ex_env ex_cfg ex_method ex_full (ex_call 10000 ex_new_first))"
  by (simp add: ex_overflow_hashes ex_new_first_def)

subsection \<open>Marking and eviction\<close>

lemma ex_write_method: "msg_method (ex_write n) = ex_method"
  by (simp add: ex_write_def ex_method_def)

lemma ex_write_marshal:
  "n < 65536 \<Longrightarrow> marshal ex_env (proto_message (ex_write n)) = Inr (ex_bytes n)"
  by (simp add: ex_env_def ex_write_def)

lemma ex_full_over: "card (insert (ex_key 10000) ex_full) > 10000"
  using ex_new_key ex_full_finite ex_full_card by simp

lemma ex_new_last_range: "map_range (insert (ex_key 10000) ex_full) ex_new_last"
  using ex_new_key ex_full_range_distinct
  by (auto simp: map_range_def ex_new_last_def ex_full_def)

lemma ex_new_last_take: "ex_key 10000 \<notin> set (take 5000 ex_new_last)"
proof -
  have "take 5000 ex_new_last = take 5000 ex_full_range"
    by (simp add: ex_new_last_def ex_full_range_length)
  moreover have "set (take 5000 ex_full_range) \<subseteq> ex_full"
    unfolding ex_full_def by (rule set_take_subset)
  ultimately show ?thesis
    using ex_new_key by auto
qed

text \<open>
  C9, as stated, fails in its last part. The cache holds the 10000 fingerprints of
  the priming run, the handler fails, and the eviction loop visits the new key first:
  the call is a first sighting that spawns the broadcast, and its fingerprint is not
  in the cache afterwards.
\<close>

theorem marking_lost_counterexample:
  "cache_after ex_env ex_cfg ex_method {} ex_priming = ex_full \<and>
   msg_method (ex_write 10000) = ex_method \<and>
   marshal ex_env (proto_message (ex_write 10000)) = Inr (ex_bytes 10000) \<and>
   hashStr ex_env (ex_bytes 10000) \<notin> ex_full \<and>
   map_range (insert (hashStr ex_env (ex_bytes 10000)) ex_full) ex_new_first \<and>
   reply (NewBroadcastInterceptor ex_env ex_cfg ex_method ex_new_first () (ex_write 10000)
     ex_failing_next ex_full) = (None, Some ''storage: write failed'') \<and>
   spawns (trace (NewBroadcastInterceptor ex_env ex_cfg ex_method ex_new_first ()
     (ex_write 10000) ex_failing_next ex_full)) \<and>
   hashStr ex_env (ex_bytes 10000)
     \<notin> hashes (NewBroadcastInterceptor ex_env ex_cfg ex_method ex_new_first ()
          (ex_write 10000) ex_failing_next ex_full)"
proof -
  have m: "marshal ex_env (proto_message (ex_write 10000)) = Inr (ex_bytes 10000)"
    by (simp add: ex_write_marshal)
  have c: "check_and_mark ex_new_first (ex_key 10000) ex_full =
             (False, insert (ex_key 10000) ex_full - set (take 5000 ex_new_first))"
    using ex_new_key ex_full_over by (rule check_and_mark_evict)
  have t: "ex_key 10000 \<in> set (take 5000 ex_new_first)"
    by (simp add: ex_new_first_def)
  show ?thesis
    using ex_new_key ex_new_first_range t
    by (simp add: ex_priming_cache ex_write_method m ex_hashStr NewBroadcastInterceptor_def c
          spawns_def ex_failing_next_def)
qed

text \<open>
  C9, amended: for a message of the configured method whose fingerprint is not in the
  cache, the broadcast is spawned after the call of \<open>next\<close> whatever \<open>next\<close>
  returns, an error included, and the result of \<open>next\<close> has no influence on the
  cache: the cache after the call is the same for every handler, and the fingerprint
  is in it unless the insertion made the cache larger than 10000 and the fingerprint
  is among the first 5000 keys the eviction loop of this call visits.
\<close>

theorem broadcast_despite_local_error:
  assumes "msg_method msg = method"
    and "marshal E (proto_message msg) = Inr msgBytes"
    and "hashStr E msgBytes \<notin> m"
  shows "trace (NewBroadcastInterceptor E cfg method range_order ctx msg next m) =
           [Marshal_call (proto_message msg), Next_call ctx msg,
            Go_broadcast (broadcast_goroutine E cfg (proto_message msg) method)] \<and>
         reply (NewBroadcastInterceptor E cfg method range_order ctx msg next m)
           = next ctx msg \<and>
         hashes (NewBroadcastInterceptor E cfg method range_order ctx msg next m) =
           hashes (NewBroadcastInterceptor E cfg method range_order ctx msg next' m) \<and>
         (hashStr E msgBytes
            \<in> hashes (NewBroadcastInterceptor E cfg method range_order ctx msg next m) \<longleftrightarrow>
          \<not> (card (insert (hashStr E msgBytes) m) > 10000 \<and>
             hashStr E msgBytes \<in> set (take 5000 range_order)))"
proof (cases "card (insert (hashStr E msgBytes) m) > 10000")
  case True
  with assms show ?thesis
    by (simp add: NewBroadcastInterceptor_def check_and_mark_evict)
next
  case False
  with assms show ?thesis
    by (simp add: NewBroadcastInterceptor_def check_and_mark_new)
qed

theorem broadcast_despite_local_error_witness:
  "msg_method (ex_write 10000) = ex_method \<and>
   marshal ex_env (proto_message (ex_write 10000)) = Inr (ex_bytes 10000) \<and>
   hashStr ex_env (ex_bytes 10000) \<notin> ex_full \<and>
   map_range (insert (ex_key 10000) ex_full) ex_new_last \<and>
   card (insert (ex_key 10000) ex_full) > 10000 \<and>
   reply (NewBroadcastInterceptor ex_env ex_cfg ex_method ex_new_last () (ex_write 10000)
     ex_failing_next ex_full) = (None, Some ''storage: write failed'') \<and>
   trace (NewBroadcastInterceptor ex_env ex_cfg ex_method ex_new_last () (ex_write 10000)
     ex_failing_next ex_full) =
     [Marshal_call 10000, Next_call () (ex_write 10000),
      Go_broadcast (broadcast_goroutine ex_env ex_cfg 10000 ex_method)] \<and>
   hashes (NewBroadcastInterceptor ex_env ex_cfg ex_method ex_new_last () (ex_write 10000)
     ex_failing_next ex_full) =
   hashes (NewBroadcastInterceptor ex_env ex_cfg ex_method ex_new_last () (ex_write 10000)
     ex_next ex_full) \<and>
   ex_key 10000 \<in> hashes (NewBroadcastInterceptor ex_env ex_cfg ex_method ex_new_last ()
     (ex_write 10000) ex_failing_next ex_full)"
proof -
  have h: "msg_method (ex_write 10000) = ex_method"
    by (rule ex_write_method)
  have m: "marshal ex_env (proto_message (ex_write 10000)) = Inr (ex_bytes 10000)"
    by (simp add: ex_write_marshal)
  have n: "hashStr ex_env (ex_bytes 10000) \<notin> ex_full"
    using ex_new_key by (simp add: ex_hashStr)
  have p: "proto_message (ex_write 10000) = 10000"
    by (simp add: ex_write_def)
  have r: "ex_failing_next () (ex_write 10000) = (None, Some ''storage: write failed'')"
    by (simp add: ex_failing_next_def)
  note t = broadcast_despite_local_error [OF h m n, of ex_cfg ex_new_last "()" ex_failing_next
      ex_next, unfolded ex_hashStr p r]
  from t ex_new_last_take
  have "ex_key 10000 \<in> hashes (NewBroadcastInterceptor ex_env ex_cfg ex_method ex_new_last ()
     (ex_write 10000) ex_failing_next ex_full)"
    by blast
  with t h m n ex_new_last_range ex_full_over show ?thesis
    unfolding ex_hashStr by blast
qed

text \<open>
  C3: in every run of a new instance in which each eviction loop ranges over the map,
  the cache is finite and holds at most 10000 fingerprints after each invocation,
  whatever is delivered. And when the insertion of a new fingerprint \<open>h\<close> into a
  cache of at most 10000 entries makes it larger than 10000, the one pass of the
  eviction loop leaves 5001 of the entries, about half the bound.
\<close>

theorem cache_occupancy_bounded:
  "(ranges_ok E cfg method {} cs \<longrightarrow>
      (\<forall>out \<in> set (deliver E cfg method {} cs).
         finite (hashes out) \<and> card (hashes out) \<le> 10000)) \<and>
   (finite m \<and> card m \<le> 10000 \<and> fingerprint E method c = Some h \<and> h \<notin> m \<and>
    card (insert h m) > 10000 \<and> map_range (insert h m) (call_range c) \<longrightarrow>
      card (hashes (invoke E cfg method m c)) = 5001 \<and>
      hashes (invoke E cfg method m c) \<subseteq> insert h m)"
proof (rule conjI)
  show "ranges_ok E cfg method {} cs \<longrightarrow>
      (\<forall>out \<in> set (deliver E cfg method {} cs).
         finite (hashes out) \<and> card (hashes out) \<le> 10000)"
    using deliver_bounded [of "{}" E cfg _ cs] by simp
next
  show "finite m \<and> card m \<le> 10000 \<and> fingerprint E method c = Some h \<and> h \<notin> m \<and>
    card (insert h m) > 10000 \<and> map_range (insert h m) (call_range c) \<longrightarrow>
      card (hashes (invoke E cfg method m c)) = 5001 \<and>
      hashes (invoke E cfg method m c) \<subseteq> insert h m"
  proof
    assume a: "finite m \<and> card m \<le> 10000 \<and> fingerprint E method c = Some h \<and> h \<notin> m \<and>
      card (insert h m) > 10000 \<and> map_range (insert h m) (call_range c)"
    then have fin: "finite m" and le: "card m \<le> 10000"
      and fp: "fingerprint E method c = Some h" and new: "h \<notin> m"
      and over: "card (insert h m) > 10000"
      and r: "map_range (insert h m) (call_range c)"
      by blast+
    have eq: "hashes (invoke E cfg method m c) = insert h m - set (take 5000 (call_range c))"
      by (simp add: invoke_hashes fp check_and_mark_evict [OF new over])
    from fin le new over have "card (insert h m) = 10001" by simp
    moreover from over have "5000 \<le> card (insert h m)" by simp
    from card_after_eviction [OF r this]
    have "card (insert h m - set (take 5000 (call_range c))) = card (insert h m) - 5000" .
    ultimately have "card (hashes (invoke E cfg method m c)) = 5001"
      by (simp add: eq)
    moreover have "hashes (invoke E cfg method m c) \<subseteq> insert h m"
      unfolding eq by blast
    ultimately show "card (hashes (invoke E cfg method m c)) = 5001 \<and>
      hashes (invoke E cfg method m c) \<subseteq> insert h m"
      by simp
  qed
qed

theorem cache_occupancy_bounded_witness:
  "ranges_ok ex_env ex_cfg ex_method {} ex_overflow \<and>
   finite (hashes (last (deliver ex_env ex_cfg ex_method {} ex_overflow))) \<and>
   card (hashes (last (deliver ex_env ex_cfg ex_method {} ex_overflow))) \<le> 10000 \<and>
   finite ex_full \<and> card ex_full \<le> 10000 \<and>
   fingerprint ex_env ex_method (ex_call 10000 ex_new_first) = Some (ex_key 10000) \<and>
   ex_key 10000 \<notin> ex_full \<and>
   card (insert (ex_key 10000) ex_full) > 10000 \<and>
   map_range (insert (ex_key 10000) ex_full) (call_range (ex_call 10000 ex_new_first)) \<and>
   card (hashes (invoke ex_env ex_cfg ex_method ex_full (ex_call 10000 ex_new_first))) = 5001"
proof -
  have r: "call_range (ex_call 10000 ex_new_first) = ex_new_first"
    by (simp add: ex_call_def)
  have f: "fingerprint ex_env ex_method (ex_call 10000 ex_new_first) = Some (ex_key 10000)"
    by (simp add: ex_fingerprint)
  have c: "card (insert (ex_key 10000) ex_full) > 10000"
    using ex_new_key ex_full_finite ex_full_card by simp
  have ro: "ranges_ok ex_env ex_cfg ex_method {} ex_overflow"
    unfolding ex_overflow_def
    using ex_new_key c ex_new_first_range
    by (simp add: ranges_ok_append ex_priming_ranges ex_priming_cache range_ok_def f r)
  have "deliver ex_env ex_cfg ex_method {} ex_overflow \<noteq> []"
    using length_deliver [of ex_env ex_cfg ex_method "{}" ex_overflow]
    by (auto simp: ex_overflow_def)
  then have l: "last (deliver ex_env ex_cfg ex_method {} ex_overflow)
      \<in> set (deliver ex_env ex_cfg ex_method {} ex_overflow)"
    by (rule last_in_set)
  note t = cache_occupancy_bounded [of ex_env ex_cfg ex_method ex_overflow ex_full
      "ex_call 10000 ex_new_first" "ex_key 10000"]
  from t ro l have b: "finite (hashes (last (deliver ex_env ex_cfg ex_method {} ex_overflow))) \<and>
   card (hashes (last (deliver ex_env ex_cfg ex_method {} ex_overflow))) \<le> 10000"
    by blast
  from t c f ex_new_key ex_full_finite ex_full_card ex_new_first_range
  have "card (hashes (invoke ex_env ex_cfg ex_method ex_full (ex_call 10000 ex_new_first))) = 5001"
    by (simp add: r)
  with ro b c f ex_new_key ex_full_finite ex_full_card ex_new_first_range show ?thesis
    by (simp add: r)
qed

text \<open>
  C8: when the insertion of a first-sighted fingerprint makes the cache larger than
  10000, the call is reported as a first sighting and, for every order of the range,
  the eviction pass deletes exactly 5000 of the entries. There is an order of the
  range for which the fingerprint just inserted is among them: it is then absent from
  the cache after the call, and every later message with the same payload is a first
  sighting again and spawns a broadcast again.
\<close>

theorem eviction_may_forget_new_fingerprint:
  fixes c :: "('c, 'p) call" and E :: "('n, 'p) env"
  assumes "finite m" and "10000 \<le> card m"
    and "same_payload E method msgBytes c" and "hashStr E msgBytes \<notin> m"
  shows "(\<forall>ro. map_range (insert (hashStr E msgBytes) m) ro \<longrightarrow>
            spawns (trace (invoke E cfg method m (c\<lparr>call_range := ro\<rparr>))) \<and>
            hashes (invoke E cfg method m (c\<lparr>call_range := ro\<rparr>))
              \<subseteq> insert (hashStr E msgBytes) m \<and>
            card (insert (hashStr E msgBytes) m
                  - hashes (invoke E cfg method m (c\<lparr>call_range := ro\<rparr>))) = 5000) \<and>
         (\<exists>ro. map_range (insert (hashStr E msgBytes) m) ro \<and>
            hashStr E msgBytes \<notin> hashes (invoke E cfg method m (c\<lparr>call_range := ro\<rparr>)) \<and>
            (\<forall>c' :: ('c, 'p) call. same_payload E method msgBytes c' \<longrightarrow>
               spawns (trace (invoke E cfg method
                 (hashes (invoke E cfg method m (c\<lparr>call_range := ro\<rparr>))) c'))))"
proof -
  let ?h = "hashStr E msgBytes"
  let ?M = "insert ?h m"
  have fp: "fingerprint E method (c\<lparr>call_range := ro\<rparr>) = Some ?h" for ro
    using assms(3) by (simp add: same_payload_def fingerprint_def)
  have over: "card ?M > 10000"
    using assms(1,2,4) by simp
  have eq: "hashes (invoke E cfg method m (c\<lparr>call_range := ro\<rparr>)) = ?M - set (take 5000 ro)" for ro
    using assms(4) over by (simp add: invoke_hashes fp check_and_mark_evict)
  have sp: "spawns (trace (invoke E cfg method m (c\<lparr>call_range := ro\<rparr>)))" for ro
    using assms(4) by (simp add: invoke_spawns fp)
  have all: "card (?M - hashes (invoke E cfg method m (c\<lparr>call_range := ro\<rparr>))) = 5000"
    if r: "map_range ?M ro" for ro
  proof -
    from r have d: "distinct ro" and s: "set ro = ?M"
      by (simp_all add: map_range_def)
    from d s have len: "length ro = card ?M"
      using distinct_card by fastforce
    have sub: "set (take 5000 ro) \<subseteq> ?M"
      using s set_take_subset by fast
    then have "?M - (?M - set (take 5000 ro)) = set (take 5000 ro)"
      by blast
    moreover have "card (set (take 5000 ro)) = length (take 5000 ro)"
      using d distinct_card distinct_take by blast
    ultimately show ?thesis
      using len over by (simp add: eq)
  qed
  from assms(1) obtain xs where xs: "set xs = m" "distinct xs"
    using finite_distinct_list by blast
  let ?ro = "?h # xs"
  have r: "map_range ?M ?ro"
    using xs assms(4) by (simp add: map_range_def)
  have gone: "?h \<notin> hashes (invoke E cfg method m (c\<lparr>call_range := ?ro\<rparr>))"
    by (simp add: eq)
  have again: "spawns (trace (invoke E cfg method
                 (hashes (invoke E cfg method m (c\<lparr>call_range := ?ro\<rparr>))) c'))"
    if "same_payload E method msgBytes c'" for c' :: "('c, 'p) call"
    using gone same_payload_fingerprint [OF that] by (simp add: invoke_spawns)
  have "\<exists>ro. map_range ?M ro \<and>
            ?h \<notin> hashes (invoke E cfg method m (c\<lparr>call_range := ro\<rparr>)) \<and>
            (\<forall>c' :: ('c, 'p) call. same_payload E method msgBytes c' \<longrightarrow>
               spawns (trace (invoke E cfg method
                 (hashes (invoke E cfg method m (c\<lparr>call_range := ro\<rparr>))) c')))"
    using r gone again by blast
  moreover have "\<forall>ro. map_range ?M ro \<longrightarrow>
            spawns (trace (invoke E cfg method m (c\<lparr>call_range := ro\<rparr>))) \<and>
            hashes (invoke E cfg method m (c\<lparr>call_range := ro\<rparr>)) \<subseteq> ?M \<and>
            card (?M - hashes (invoke E cfg method m (c\<lparr>call_range := ro\<rparr>))) = 5000"
    using sp all eq by auto
  ultimately show ?thesis by blast
qed

theorem eviction_may_forget_new_fingerprint_witness:
  "finite ex_full \<and> 10000 \<le> card ex_full \<and>
   same_payload ex_env ex_method (ex_bytes 10000) (ex_call 10000 []) \<and>
   hashStr ex_env (ex_bytes 10000) \<notin> ex_full \<and>
   map_range (insert (ex_key 10000) ex_full) ex_new_first \<and>
   card (insert (ex_key 10000) ex_full
         - hashes (invoke ex_env ex_cfg ex_method ex_full (ex_call 10000 ex_new_first))) = 5000 \<and>
   (\<exists>ro. map_range (insert (ex_key 10000) ex_full) ro \<and>
      ex_key 10000 \<notin> hashes (invoke ex_env ex_cfg ex_method ex_full (ex_call 10000 ro)) \<and>
      spawns (trace (invoke ex_env ex_cfg ex_method
        (hashes (invoke ex_env ex_cfg ex_method ex_full (ex_call 10000 ro)))
        (ex_call 10000 []))))"
proof -
  have u: "(ex_call 10000 [])\<lparr>call_range := ro\<rparr> = ex_call 10000 ro" for ro
    by (simp add: ex_call_def)
  have s: "same_payload ex_env ex_method (ex_bytes 10000) (ex_call 10000 [])"
    by (simp add: ex_same_payload)
  have n: "hashStr ex_env (ex_bytes 10000) \<notin> ex_full"
    using ex_new_key by (simp add: ex_hashStr)
  have c: "10000 \<le> card ex_full"
    by (simp add: ex_full_card)
  note t = eviction_may_forget_new_fingerprint [OF ex_full_finite c s n, of ex_cfg,
      unfolded u ex_hashStr]
  from t ex_new_first_range
  have "card (insert (ex_key 10000) ex_full
         - hashes (invoke ex_env ex_cfg ex_method ex_full (ex_call 10000 ex_new_first))) = 5000"
    by blast
  moreover from t s
  have "\<exists>ro. map_range (insert (ex_key 10000) ex_full) ro \<and>
      ex_key 10000 \<notin> hashes (invoke ex_env ex_cfg ex_method ex_full (ex_call 10000 ro)) \<and>
      spawns (trace (invoke ex_env ex_cfg ex_method
        (hashes (invoke ex_env ex_cfg ex_method ex_full (ex_call 10000 ro)))
        (ex_call 10000 [])))"
    by blast
  ultimately show ?thesis
    using ex_full_finite c s n ex_new_first_range by blast
qed

subsection \<open>One broadcast for each payload\<close>

lemma ex_key_3: "ex_key 3 = ''0000000000000003''"
  by (simp add: ex_key_def ex_bytes_def sprintf_x_def hex_byte_def hex_digit_def)

lemma ex_key_4: "ex_key 4 = ''0000000000000004''"
  by (simp add: ex_key_def ex_bytes_def sprintf_x_def hex_byte_def hex_digit_def)

text \<open>
  C1, as stated, fails. A new instance receives the writes of the payloads 0 to 9999
  and then the write of the payload 10000 twice; the eviction loop of the first of the
  two visits the new fingerprint first. Both deliveries of the payload 10000 spawn a
  broadcast.
\<close>

theorem repeated_broadcast_counterexample:
  "broadcasts_of ex_env ex_cfg ex_method (ex_bytes 10000) {} ex_twice = [True, True]"
proof -
  have f: "fingerprint ex_env ex_method (ex_call 10000 ro) = Some (ex_key 10000)" for ro
    by (simp add: ex_fingerprint)
  have s: "same_payload ex_env ex_method (ex_bytes 10000) (ex_call 10000 ro)" for ro
    by (simp add: ex_same_payload)
  show ?thesis
    unfolding ex_twice_def
    using ex_new_key ex_key_evicted
    by (simp add: broadcasts_of_append ex_priming_broadcasts ex_priming_cache
          broadcasts_of_Cons broadcasts_of_Nil s invoke_spawns f)
qed

text \<open>
  C1, amended: in a run in which the cache never grows beyond 10000 fingerprints (so
  that no eviction pass runs), delivered to an instance that has not seen the
  fingerprint of the payload \<open>msgBytes\<close>, and in which no other payload has this
  fingerprint, of the messages of the configured method with the payload \<open>msgBytes\<close>
  the first spawns a broadcast and none of the later ones does.
\<close>

theorem one_broadcast_per_payload_without_eviction:
  assumes "finite m" and "card (m \<union> set (fingerprints E method cs)) \<le> 10000"
    and "hashStr E msgBytes \<notin> m"
    and "\<forall>c \<in> set cs. fingerprint E method c = Some (hashStr E msgBytes) \<longrightarrow>
           same_payload E method msgBytes c"
    and "\<exists>c \<in> set cs. same_payload E method msgBytes c"
  shows "broadcasts_of E cfg method msgBytes m cs =
           True # replicate (length (filter (same_payload E method msgBytes) cs) - 1) False"
proof -
  from assms(5) have "filter (same_payload E method msgBytes) cs \<noteq> []"
    by (simp add: filter_empty_conv)
  with broadcasts_of_unseen [OF assms(1-4), of cfg] show ?thesis by simp
qed

theorem one_broadcast_per_payload_without_eviction_witness:
  "card ({} \<union> set (fingerprints ex_env ex_method ex_repeat)) \<le> 10000 \<and>
   hashStr ex_env (ex_bytes 3) \<notin> {} \<and>
   (\<exists>c \<in> set ex_repeat. same_payload ex_env ex_method (ex_bytes 3) c) \<and>
   length (filter (same_payload ex_env ex_method (ex_bytes 3)) ex_repeat) = 3 \<and>
   broadcasts_of ex_env ex_cfg ex_method (ex_bytes 3) {} ex_repeat = [True, False, False]"
proof -
  have fp: "fingerprints ex_env ex_method ex_repeat = [ex_key 3, ex_key 4, ex_key 3, ex_key 3]"
    by (simp add: ex_repeat_def ex_fingerprint)
  have c: "card ({} \<union> set (fingerprints ex_env ex_method ex_repeat)) \<le> 10000"
    by (simp add: fp card_insert_if)
  have n: "hashStr ex_env (ex_bytes 3) \<notin> {}"
    by simp
  have a: "\<forall>c \<in> set ex_repeat. fingerprint ex_env ex_method c = Some (hashStr ex_env (ex_bytes 3)) \<longrightarrow>
           same_payload ex_env ex_method (ex_bytes 3) c"
    by (simp add: ex_repeat_def ex_fingerprint ex_same_payload ex_hashStr ex_key_3 ex_key_4)
  have e: "\<exists>c \<in> set ex_repeat. same_payload ex_env ex_method (ex_bytes 3) c"
    by (simp add: ex_repeat_def ex_same_payload)
  have l: "length (filter (same_payload ex_env ex_method (ex_bytes 3)) ex_repeat) = 3"
    by (simp add: ex_repeat_def ex_same_payload)
  show ?thesis
    using c n e l one_broadcast_per_payload_without_eviction [OF finite.emptyI c n a e, of ex_cfg]
    by (simp add: numeral_3_eq_3)
qed

end
